theory Spec2Isabelle
  imports Main
begin

section \<open>Arrays: indexOf and fastSplice\<close>

text \<open>
  JavaScript arrays are lists. \<open>Array.prototype.indexOf\<close> returns the first index whose
  element is strictly equal to the argument, or \<open>-1\<close>; the model returns \<open>None\<close> for \<open>-1\<close>.
\<close>

fun indexOf :: "'a list \<Rightarrow> 'a \<Rightarrow> nat option" where
  "indexOf [] x = None"
| "indexOf (y # ys) x = (if y = x then Some 0 else map_option Suc (indexOf ys x))"

text \<open>
  \<open>fastSplice\<close> (utils) shifts the tail of the array to the left in place and then cuts the
  array's length. The loop reads \<open>array[i + removeCount]\<close>, which is \<open>undefined\<close> past the
  end of the array: inside the loop a cell is an option, \<open>None\<close> for \<open>undefined\<close>.
\<close>

definition js_read :: "'a option list \<Rightarrow> nat \<Rightarrow> 'a option" where
  "js_read array k = (if k < length array then array ! k else None)"

function fastSplice_loop :: "'a option list \<Rightarrow> nat \<Rightarrow> nat \<Rightarrow> nat \<Rightarrow> 'a option list" where
  "fastSplice_loop array i len removeCount =
     (if i < len
      then fastSplice_loop (array[i := js_read array (i + removeCount)]) (Suc i) len removeCount
      else array)"
  by pat_completeness auto
termination
  by (relation "measure (\<lambda>(array, i, len, removeCount). len - i)") auto

declare fastSplice_loop.simps [simp del]

definition fastSplice :: "'a list \<Rightarrow> nat \<Rightarrow> nat \<Rightarrow> 'a list" where
  "fastSplice array startIndex removeCount =
     (let len = length array in
      if startIndex \<ge> len \<or> removeCount = 0 then array
      else
        let removeCount' = (if startIndex + removeCount > len then len - startIndex else removeCount);
            removeLen = len - removeCount';
            cells = fastSplice_loop (map Some array) startIndex len removeCount'
        in map the (take removeLen cells))"

section \<open>The data model\<close>

text \<open>
  Entities and systems are objects that refer to each other, and the coordinator refers
  to both: an object is a reference (an address) into a heap of records, and
  \<open>indexOf\<close> compares references. A component is an object with named fields.
\<close>

type_synonym entity_ref = nat
type_synonym system_ref = nat

datatype jsval = JNum int | JStr string | JBool bool

type_synonym component = "string \<rightharpoonup> jsval"

text \<open>
  Class \<open>Entity\<close>. The field \<open>ecs\<close> holds the owning coordinator or \<open>undefined\<close>; the
  model has one coordinator, so the field is \<open>True\<close> when it is set.
\<close>

record entity =
  entity_id :: int
  ecs :: bool
  systems :: "system_ref list"
  systemsDirty :: bool
  components :: "string \<rightharpoonup> component"

text \<open>
  Class \<open>System\<close>. \<open>test\<close> is a method that concrete systems override (the base class
  returns \<open>false\<close>); the record holds the override as a predicate on the entity.
\<close>

record system =
  frequency :: nat
  entities :: "entity_ref list"
  test :: "entity \<Rightarrow> bool"

text \<open>
  The hooks \<open>enter\<close>, \<open>exit\<close>, \<open>preUpdate\<close>, \<open>update\<close> and \<open>postUpdate\<close> are abstract
  methods. The model records each invocation, in order, in a trace; the bodies that an
  application supplies are outside the model.
\<close>

datatype event =
    Enter system_ref entity_ref
  | Exit system_ref entity_ref
  | PreUpdate system_ref
  | Update system_ref entity_ref int
  | PostUpdate system_ref

text \<open>
  Class \<open>ECS\<close> together with the two heaps and the trace of hook invocations. The tick
  counter and the frequencies are JavaScript numbers that hold natural numbers (the
  counter is exact below \<open>2^53\<close> ticks); clock readings are milliseconds.
\<close>

record world =
  entity_heap :: "entity_ref \<Rightarrow> entity"
  system_heap :: "system_ref \<Rightarrow> system"
  ecs_entities :: "entity_ref list"
  entitiesSystemsDirty :: "entity_ref list"
  ecs_systems :: "system_ref list"
  updateCounter :: nat
  lastUpdate :: int
  trace :: "event list"

definition upd_entity :: "world \<Rightarrow> entity_ref \<Rightarrow> (entity \<Rightarrow> entity) \<Rightarrow> world" where
  "upd_entity w e f = w\<lparr>entity_heap := (entity_heap w)(e := f (entity_heap w e))\<rparr>"

definition upd_system :: "world \<Rightarrow> system_ref \<Rightarrow> (system \<Rightarrow> system) \<Rightarrow> world" where
  "upd_system w s f = w\<lparr>system_heap := (system_heap w)(s := f (system_heap w s))\<rparr>"

definition emit :: "world \<Rightarrow> event \<Rightarrow> world" where
  "emit w ev = w\<lparr>trace := trace w @ [ev]\<rparr>"

section \<open>Entity\<close>

definition setSystemsDirty :: "world \<Rightarrow> entity_ref \<Rightarrow> world" where
  "setSystemsDirty w e =
     (if \<not> systemsDirty (entity_heap w e) \<and> ecs (entity_heap w e)
      then (upd_entity w e (\<lambda>x. x\<lparr>systemsDirty := True\<rparr>))
             \<lparr>entitiesSystemsDirty := entitiesSystemsDirty w @ [e]\<rparr>
      else w)"

definition addToECS :: "world \<Rightarrow> entity_ref \<Rightarrow> world" where
  "addToECS w e = setSystemsDirty (upd_entity w e (\<lambda>x. x\<lparr>ecs := True\<rparr>)) e"

definition Entity_addSystem :: "world \<Rightarrow> entity_ref \<Rightarrow> system_ref \<Rightarrow> world" where
  "Entity_addSystem w e s = upd_entity w e (\<lambda>x. x\<lparr>systems := systems x @ [s]\<rparr>)"

definition Entity_removeSystem :: "world \<Rightarrow> entity_ref \<Rightarrow> system_ref \<Rightarrow> world" where
  "Entity_removeSystem w e s =
     (case indexOf (systems (entity_heap w e)) s of
        None \<Rightarrow> w
      | Some index \<Rightarrow> upd_entity w e (\<lambda>x. x\<lparr>systems := fastSplice (systems x) index 1\<rparr>))"

definition addComponent :: "world \<Rightarrow> entity_ref \<Rightarrow> string \<Rightarrow> component \<Rightarrow> world" where
  "addComponent w e name component =
     setSystemsDirty (upd_entity w e (\<lambda>x. x\<lparr>components := (components x)(name \<mapsto> component)\<rparr>)) e"

definition removeComponent :: "world \<Rightarrow> entity_ref \<Rightarrow> string \<Rightarrow> world" where
  "removeComponent w e name =
     (if components (entity_heap w e) name = None then w
      else setSystemsDirty
             (upd_entity w e (\<lambda>x. x\<lparr>components := (components x)(name := None)\<rparr>)) e)"

text \<open>
  \<open>updateComponent\<close> walks the enumerable properties of \<open>data\<close> (\<open>for ... in\<close>); a
  property is its key, whether \<open>data\<close> owns it, and its value. For each of them it calls
  \<open>data.hasOwnProperty(key)\<close>. The name \<open>hasOwnProperty\<close> is looked up on \<open>data\<close> like any
  other property. An enumerable property of that name, owned or inherited, holds a value
  that is no function (the type \<open>ComProps\<close> has no function-valued field), and calling it
  throws a \<open>TypeError\<close>. Otherwise the name resolves along the prototype chain: to the
  method of \<open>Object.prototype\<close>, which tells whether \<open>data\<close> owns the key; to nothing
  callable (an object without prototype), which throws as well; or to a function of the
  application, which returns a truth value or throws.

  Writing a field of \<open>undefined\<close> throws a \<open>TypeError\<close>. A throw leaves the loop with
  the fields written so far in place: the loop returns the error, if any, and the
  component as it is then, and the result of \<open>updateComponent\<close> is \<open>Inl\<close> with the error
  and the state at the throw, or \<open>Inr\<close> with the state at the return.
\<close>

datatype error = TypeError | Thrown

type_synonym props = "(string \<times> bool \<times> jsval) list"

datatype callee = Builtin | NotCallable | Function "string \<Rightarrow> error + bool"

record data_object =
  enumerable :: props
  prototype_hasOwnProperty :: callee

definition resolve_hasOwnProperty :: "data_object \<Rightarrow> callee" where
  "resolve_hasOwnProperty data =
     (if ''hasOwnProperty'' \<in> set (map fst (enumerable data)) then NotCallable
      else prototype_hasOwnProperty data)"

definition call_hasOwnProperty :: "callee \<Rightarrow> bool \<Rightarrow> string \<Rightarrow> error + bool" where
  "call_hasOwnProperty m own key =
     (case m of Builtin \<Rightarrow> Inr own | NotCallable \<Rightarrow> Inl TypeError | Function f \<Rightarrow> f key)"

fun updateComponent_loop ::
    "component option \<Rightarrow> callee \<Rightarrow> props \<Rightarrow> error option \<times> component option" where
  "updateComponent_loop component m [] = (None, component)"
| "updateComponent_loop component m ((key, own, v) # rest) =
     (case call_hasOwnProperty m own key of
        Inl err \<Rightarrow> (Some err, component)
      | Inr False \<Rightarrow> updateComponent_loop component m rest
      | Inr True \<Rightarrow>
          (case component of
             None \<Rightarrow> (Some TypeError, None)
           | Some c \<Rightarrow> updateComponent_loop (Some (c(key \<mapsto> v))) m rest))"

definition updateComponent ::
    "world \<Rightarrow> entity_ref \<Rightarrow> string \<Rightarrow> data_object \<Rightarrow> (error \<times> world) + world" where
  "updateComponent w e name data =
     (let (thrown, component) =
            updateComponent_loop (components (entity_heap w e) name)
              (resolve_hasOwnProperty data) (enumerable data);
          w' = (case component of
                  None \<Rightarrow> w
                | Some c \<Rightarrow>
                    upd_entity w e (\<lambda>x. x\<lparr>components := (components x)(name \<mapsto> c)\<rparr>))
      in case thrown of None \<Rightarrow> Inr w' | Some err \<Rightarrow> Inl (err, w'))"

section \<open>System\<close>

definition System_addEntity :: "world \<Rightarrow> system_ref \<Rightarrow> entity_ref \<Rightarrow> world" where
  "System_addEntity w s e =
     emit (upd_system (Entity_addSystem w e s) s (\<lambda>y. y\<lparr>entities := entities y @ [e]\<rparr>))
          (Enter s e)"

definition System_removeEntity :: "world \<Rightarrow> system_ref \<Rightarrow> entity_ref \<Rightarrow> world" where
  "System_removeEntity w s e =
     (case indexOf (entities (system_heap w s)) e of
        None \<Rightarrow> w
      | Some index \<Rightarrow>
          emit (upd_system (Entity_removeSystem w e s) s
                  (\<lambda>y. y\<lparr>entities := fastSplice (entities y) index 1\<rparr>))
               (Exit s e))"

definition System_updateAll :: "world \<Rightarrow> system_ref \<Rightarrow> int \<Rightarrow> world" where
  "System_updateAll w s elapsed =
     emit (fold (\<lambda>e w'. emit w' (Update s e elapsed)) (entities (system_heap w s))
             (emit w (PreUpdate s)))
          (PostUpdate s)"

text \<open>
  The loops of \<open>updateAll\<close> and \<open>System.dispose\<close> run over \<open>this.entities\<close>, which their
  bodies do not touch: they are folds over the list.
\<close>

definition System_dispose :: "world \<Rightarrow> system_ref \<Rightarrow> world" where
  "System_dispose w s =
     fold (\<lambda>e w'. emit (Entity_removeSystem w' e s) (Exit s e)) (entities (system_heap w s)) w"

text \<open>
  \<open>Entity.dispose\<close> iterates over \<open>this.systems\<close> with \<open>for ... of\<close> while
  \<open>System.removeEntity\<close> splices that same array. The array iterator keeps an index and
  compares it with the array's current length at every step, so the loop is a recursion
  on the index over the current state rather than a fold over the initial list.
\<close>

function Entity_dispose_loop :: "world \<Rightarrow> entity_ref \<Rightarrow> nat \<Rightarrow> world" where
  "Entity_dispose_loop w e i =
     (if i < length (systems (entity_heap w e))
      then Entity_dispose_loop (System_removeEntity w (systems (entity_heap w e) ! i) e) e (Suc i)
      else w)"
  by pat_completeness auto

definition Entity_dispose :: "world \<Rightarrow> entity_ref \<Rightarrow> world" where
  "Entity_dispose w e = Entity_dispose_loop w e 0"

section \<open>ECS\<close>

definition getEntityById :: "world \<Rightarrow> int \<Rightarrow> entity_ref option" where
  "getEntityById w ident = find (\<lambda>e. entity_id (entity_heap w e) = ident) (ecs_entities w)"

definition ECS_addEntity :: "world \<Rightarrow> entity_ref \<Rightarrow> world" where
  "ECS_addEntity w e = addToECS (w\<lparr>ecs_entities := ecs_entities w @ [e]\<rparr>) e"

text \<open>
  \<open>removeEntityIfDirty\<close> looks the entity up in \<open>entitiesSystemsDirty\<close> and splices
  \<open>this.entities\<close> at the index it found, as the source does.
\<close>

definition removeEntityIfDirty :: "world \<Rightarrow> entity_ref \<Rightarrow> world" where
  "removeEntityIfDirty w e =
     (case indexOf (entitiesSystemsDirty w) e of
        None \<Rightarrow> w
      | Some index \<Rightarrow> w\<lparr>ecs_entities := fastSplice (ecs_entities w) index 1\<rparr>)"

text \<open>The result \<open>None\<close> is the \<open>undefined\<close> that the source returns when nothing is found.\<close>

definition ECS_removeEntity :: "world \<Rightarrow> entity_ref \<Rightarrow> entity_ref option \<times> world" where
  "ECS_removeEntity w e =
     (case indexOf (ecs_entities w) e of
        None \<Rightarrow> (None, w)
      | Some index \<Rightarrow>
          let entityRemoved = ecs_entities w ! index;
              w1 = Entity_dispose w e;
              w2 = removeEntityIfDirty w1 entityRemoved
          in (Some entityRemoved, w2\<lparr>ecs_entities := fastSplice (ecs_entities w2) index 1\<rparr>))"

function removeEntityById_loop :: "world \<Rightarrow> int \<Rightarrow> nat \<Rightarrow> entity_ref option \<times> world" where
  "removeEntityById_loop w entityId i =
     (if i < length (ecs_entities w)
      then
        let e = ecs_entities w ! i in
        if entity_id (entity_heap w e) = entityId
        then
          let w1 = Entity_dispose w e;
              w2 = removeEntityIfDirty w1 e
          in (Some e, w2\<lparr>ecs_entities := fastSplice (ecs_entities w2) i 1\<rparr>)
        else removeEntityById_loop w entityId (Suc i)
      else (None, w))"
  by pat_completeness auto
termination
  by (relation "measure (\<lambda>(w, entityId, i). length (ecs_entities w) - i)") auto

declare removeEntityById_loop.simps [simp del]

definition removeEntityById :: "world \<Rightarrow> int \<Rightarrow> entity_ref option \<times> world" where
  "removeEntityById w entityId = removeEntityById_loop w entityId 0"

definition ECS_addSystem :: "world \<Rightarrow> system_ref \<Rightarrow> world" where
  "ECS_addSystem w s =
     fold (\<lambda>e w'. if test (system_heap w' s) (entity_heap w' e) then System_addEntity w' s e else w')
          (ecs_entities w) (w\<lparr>ecs_systems := ecs_systems w @ [s]\<rparr>)"

definition ECS_removeSystem :: "world \<Rightarrow> system_ref \<Rightarrow> world" where
  "ECS_removeSystem w s =
     (case indexOf (ecs_systems w) s of
        None \<Rightarrow> w
      | Some index \<Rightarrow> System_dispose (w\<lparr>ecs_systems := fastSplice (ecs_systems w) index 1\<rparr>) s)"

text \<open>The body of the inner loop of \<open>cleanDirtyEntities\<close>, for one entity and one system.\<close>

definition clean_step :: "world \<Rightarrow> entity_ref \<Rightarrow> system_ref \<Rightarrow> world" where
  "clean_step w e s =
     (let index = indexOf (systems (entity_heap w e)) s;
          entity_test = test (system_heap w s) (entity_heap w e)
      in if index = None \<and> entity_test then System_addEntity w s e
         else if index \<noteq> None \<and> \<not> entity_test then System_removeEntity w s e
         else w)"

definition clean_entity :: "world \<Rightarrow> entity_ref \<Rightarrow> world" where
  "clean_entity w e =
     upd_entity (fold (\<lambda>s w'. clean_step w' e s) (ecs_systems w) w) e
       (\<lambda>x. x\<lparr>systemsDirty := False\<rparr>)"

definition cleanDirtyEntities :: "world \<Rightarrow> world" where
  "cleanDirtyEntities w =
     (fold (\<lambda>e w'. clean_entity w' e) (entitiesSystemsDirty w) w)\<lparr>entitiesSystemsDirty := []\<rparr>"

text \<open>
  The gate of \<open>ECS.update\<close> is \<open>this.updateCounter % system.frequency > 0\<close>. In JavaScript
  \<open>x % 0\<close> is \<open>NaN\<close> and \<open>NaN > 0\<close> is false, whereas \<open>x mod 0 = x\<close> in HOL.
\<close>

definition gate_miss :: "nat \<Rightarrow> nat \<Rightarrow> bool" where
  "gate_miss counter freq = (freq \<noteq> 0 \<and> counter mod freq > 0)"

text \<open>The loop of \<open>ECS.update\<close> over the systems that are left; a gate miss is the \<open>break\<close>.\<close>

fun ECS_update_loop :: "world \<Rightarrow> system_ref list \<Rightarrow> int \<Rightarrow> world" where
  "ECS_update_loop w [] elapsed = w"
| "ECS_update_loop w (s # rest) elapsed =
     (if gate_miss (updateCounter w) (frequency (system_heap w s)) then w
      else ECS_update_loop
             (System_updateAll (if entitiesSystemsDirty w \<noteq> [] then cleanDirtyEntities w else w)
                s elapsed)
             rest elapsed)"

text \<open>\<open>now\<close> is the reading of the clock (\<open>performance.now()\<close>) at the call.\<close>

definition ECS_update :: "world \<Rightarrow> int \<Rightarrow> world" where
  "ECS_update w now =
     (let elapsed = now - lastUpdate w;
          w' = ECS_update_loop w (ecs_systems w) elapsed
      in w'\<lparr>updateCounter := updateCounter w' + 1, lastUpdate := now\<rparr>)"

section \<open>Constructors\<close>

text \<open>
  \<open>new Entity(components)\<close> takes its id from the id generator (here an argument) and
  stores each initial component under its name, in array order. \<open>new System(frequency)\<close>
  starts with no member; its \<open>test\<close> is the one of the concrete class. A new \<open>ECS\<close> is
  empty; the heaps hold the objects that the application has constructed.
\<close>

definition new_Entity :: "int \<Rightarrow> (string \<times> component) list \<Rightarrow> entity" where
  "new_Entity uid cs =
     \<lparr>entity_id = uid, ecs = False, systems = [], systemsDirty = False,
      components = fold (\<lambda>(name, c) m. m(name \<mapsto> c)) cs Map.empty\<rparr>"

definition new_System :: "nat \<Rightarrow> (entity \<Rightarrow> bool) \<Rightarrow> system" where
  "new_System freq t = \<lparr>frequency = freq, entities = [], test = t\<rparr>"

definition new_ECS :: "(entity_ref \<Rightarrow> entity) \<Rightarrow> (system_ref \<Rightarrow> system) \<Rightarrow> int \<Rightarrow> world" where
  "new_ECS eh sh now =
     \<lparr>entity_heap = eh, system_heap = sh, ecs_entities = [], entitiesSystemsDirty = [],
      ecs_systems = [], updateCounter = 0, lastUpdate = now, trace = []\<rparr>"

section \<open>Observations and example configurations\<close>

text \<open>
  The predicates in which the properties below are stated, and the concrete
  configurations on which they are evaluated, grouped by the operation they concern.
\<close>

subsection \<open>Systems, entities and coordinators\<close>

text \<open>
  A concrete system class whose \<open>test\<close> asks for a component name, and one that admits
  every entity; heaps of freshly constructed objects with distinct ids.
\<close>

definition has_component :: "string \<Rightarrow> entity \<Rightarrow> bool" where
  "has_component name x = (case components x name of None \<Rightarrow> False | Some c \<Rightarrow> True)"

definition fresh_entities :: "entity_ref \<Rightarrow> entity" where
  "fresh_entities r = new_Entity (int r) []"

definition ecs_all :: world where
  "ecs_all = new_ECS fresh_entities (\<lambda>r. new_System 1 (\<lambda>x. True)) 0"

definition ecs_half :: world where
  "ecs_half = new_ECS fresh_entities (\<lambda>r. new_System 2 (has_component ''X'')) 0"

subsection \<open>ECS.update when the first system misses its gate\<close>

text \<open>
  Entity 0 is attached, reconciled on tick 0 and dirtied again; the only system has
  frequency 2 and the counter is 1.
\<close>

definition ecs_tick1_dirty :: world where
  "ecs_tick1_dirty =
     addComponent (ECS_update (ECS_addEntity (ECS_addSystem ecs_half 1) 0) 0) 0 ''X'' Map.empty"

subsection \<open>Entity.dispose\<close>

text \<open>
  Entity 0 is attached to a coordinator with the systems 1 and 2, which admit every
  entity; the first tick makes it a member of both.
\<close>

definition ecs_two_systems :: world where
  "ecs_two_systems = ECS_update (ECS_addEntity (ECS_addSystem (ECS_addSystem ecs_all 1) 2) 0) 5"

subsection \<open>ECS.removeEntity and ECS.removeEntityById\<close>

text \<open>The entities 0 and 1 have just been added: both are in the population and queued.\<close>

definition ecs_two_entities :: world where
  "ecs_two_entities = ECS_addEntity (ECS_addEntity ecs_all 0) 1"

subsection \<open>Marking entities dirty\<close>

text \<open>
  The operations that mark an entity dirty, and a run of them on any entities with no
  reconciliation in between. \<open>enqueued w w'\<close> is what the dirty queue of \<open>w'\<close> holds
  beyond the length of the queue of \<open>w\<close>.
\<close>

datatype dirty_op = SetSystemsDirty | AddComponent string component | RemoveComponent string

fun apply_dirty_op :: "world \<Rightarrow> entity_ref \<times> dirty_op \<Rightarrow> world" where
  "apply_dirty_op w (e, SetSystemsDirty) = setSystemsDirty w e"
| "apply_dirty_op w (e, AddComponent name c) = addComponent w e name c"
| "apply_dirty_op w (e, RemoveComponent name) = removeComponent w e name"

definition apply_dirty_ops :: "world \<Rightarrow> (entity_ref \<times> dirty_op) list \<Rightarrow> world" where
  "apply_dirty_ops w ops = fold (\<lambda>op w'. apply_dirty_op w' op) ops w"

definition enqueued :: "world \<Rightarrow> world \<Rightarrow> entity_ref list" where
  "enqueued w w' = drop (length (entitiesSystemsDirty w)) (entitiesSystemsDirty w')"

definition is_dirty :: "world \<Rightarrow> entity_ref \<Rightarrow> bool" where
  "is_dirty w e = systemsDirty (entity_heap w e)"

definition attached :: "world \<Rightarrow> entity_ref \<Rightarrow> bool" where
  "attached w e = ecs (entity_heap w e)"

text \<open>
  Entity 0 is attached and clean after the first tick; entity 1 has never been added to
  the coordinator. The run touches both.
\<close>

definition ecs_clean :: world where
  "ecs_clean = ECS_update (ECS_addEntity (ECS_addSystem ecs_half 1) 0) 0"

definition dirty_run :: "(entity_ref \<times> dirty_op) list" where
  "dirty_run =
     [(0, AddComponent ''X'' Map.empty), (1, AddComponent ''X'' Map.empty),
      (0, SetSystemsDirty), (0, RemoveComponent ''X''), (1, SetSystemsDirty),
      (0, AddComponent ''Y'' Map.empty)]"

subsection \<open>Entity.updateComponent\<close>

text \<open>
  The state after a call, whether it returned or threw. The empty object literal \<open>{}\<close>
  has no enumerable property and inherits \<open>hasOwnProperty\<close> from \<open>Object.prototype\<close>.
\<close>

definition state_after :: "(error \<times> world) + world \<Rightarrow> world" where
  "state_after r = (case r of Inl (err, w') \<Rightarrow> w' | Inr w' \<Rightarrow> w')"

definition empty_object :: data_object where
  "empty_object = \<lparr>enumerable = [], prototype_hasOwnProperty = Builtin\<rparr>"

text \<open>
  An object literal with one field \<open>foo\<close>, and one whose own field is named
  \<open>hasOwnProperty\<close>; entity 0 with a component X.
\<close>

definition foo_object :: data_object where
  "foo_object =
     \<lparr>enumerable = [(''foo'', True, JStr ''bar'')], prototype_hasOwnProperty = Builtin\<rparr>"

definition shadowing_object :: data_object where
  "shadowing_object =
     \<lparr>enumerable = [(''hasOwnProperty'', True, JBool True)],
      prototype_hasOwnProperty = Builtin\<rparr>"

definition ecs_with_X :: world where
  "ecs_with_X = addComponent ecs_all 0 ''X'' Map.empty"

subsection \<open>Agreement of member lists and membership caches\<close>

text \<open>
  For a system \<open>s\<close> and an entity \<open>e\<close>, the member list of \<open>s\<close> and the membership
  cache of \<open>e\<close> agree when \<open>e\<close> occurs in the one as often as \<open>s\<close> occurs in the other.
  Then \<open>e\<close> is in the member list if and only if \<open>s\<close> is in the cache.
\<close>

definition agrees_on :: "world \<Rightarrow> system_ref \<Rightarrow> entity_ref \<Rightarrow> bool" where
  "agrees_on w s e =
     (count_list (entities (system_heap w s)) e = count_list (systems (entity_heap w e)) s)"

subsection \<open>System.dispose and ECS.removeSystem\<close>

text \<open>System 1 is removed from the coordinator of two systems and added again.\<close>

definition ecs_readded :: world where
  "ecs_readded = ECS_addSystem (ECS_removeSystem ecs_two_systems 1) 1"

text \<open>The body of the loop of \<open>System.dispose\<close>, for one member entity.\<close>

definition dispose_step :: "system_ref \<Rightarrow> entity_ref \<Rightarrow> world \<Rightarrow> world" where
  "dispose_step s e w = emit (Entity_removeSystem w e s) (Exit s e)"

subsection \<open>The frequency gate of ECS.update\<close>

text \<open>
  \<open>preUpdate\<close> is invoked by \<open>updateAll\<close> and by nothing else, once per call: the systems
  of the \<open>PreUpdate\<close> events of a trace are the systems whose \<open>updateAll\<close> has been invoked,
  in order. \<open>runs_in_tick\<close> is what one call of \<open>ECS.update\<close> adds to them, and
  \<open>gated_out w i\<close> says that the system at position \<open>i\<close> of the list misses its gate.
\<close>

fun updated_systems :: "event list \<Rightarrow> system_ref list" where
  "updated_systems [] = []"
| "updated_systems (PreUpdate s # evs) = s # updated_systems evs"
| "updated_systems (ev # evs) = updated_systems evs"

definition runs_in_tick :: "world \<Rightarrow> int \<Rightarrow> system_ref list" where
  "runs_in_tick w now =
     drop (length (updated_systems (trace w))) (updated_systems (trace (ECS_update w now)))"

definition gated_out :: "world \<Rightarrow> nat \<Rightarrow> bool" where
  "gated_out w i = gate_miss (updateCounter w) (frequency (system_heap w (ecs_systems w ! i)))"

text \<open>What the loop of \<open>ECS.update\<close> depends on, and the invocations so far.\<close>

definition schedule_view ::
    "world \<Rightarrow> system_ref list \<times> system_ref list \<times> nat \<times> (system_ref \<Rightarrow> nat)" where
  "schedule_view w =
     (updated_systems (trace w), ecs_systems w, updateCounter w,
      \<lambda>s. frequency (system_heap w s))"

text \<open>
  Three registered systems: system \<open>r\<close> has frequency \<open>r\<close>. Two and three ticks later
  the counter is 2 and 3.
\<close>

definition ecs_freq :: world where
  "ecs_freq =
     ECS_addSystem (ECS_addSystem (ECS_addSystem
       (new_ECS fresh_entities (\<lambda>r. new_System r (\<lambda>x. True)) 0) 1) 2) 3"

definition ecs_tick2 :: world where "ecs_tick2 = ECS_update (ECS_update ecs_freq 1) 2"

definition ecs_tick3 :: world where "ecs_tick3 = ECS_update ecs_tick2 3"

subsection \<open>Reconciliation: cleanDirtyEntities\<close>








text \<open>
  What one round of reconciliation leaves alone: the list of systems, the tests, the
  entities up to their bookkeeping fields.
\<close>

definition strip :: "entity \<Rightarrow> entity" where
  "strip x = x\<lparr>systems := [], systemsDirty := False\<rparr>"

definition static_view ::
    "world \<Rightarrow> system_ref list \<times> (system_ref \<Rightarrow> entity \<Rightarrow> bool) \<times> (entity_ref \<Rightarrow> entity)" where
  "static_view w =
     (ecs_systems w, (\<lambda>s. test (system_heap w s)), (\<lambda>e. strip (entity_heap w e)))"





section \<open>Facts about arrays\<close>

lemma fastSplice_loop_length [simp]:
  "length (fastSplice_loop array i len rc) = length array"
  by (induction array i len rc rule: fastSplice_loop.induct)
     (subst fastSplice_loop.simps, simp)

lemma fastSplice_loop_nth:
  "length array = len \<Longrightarrow> 0 < rc \<Longrightarrow> k < len \<Longrightarrow>
   fastSplice_loop array i len rc ! k = (if i \<le> k then js_read array (k + rc) else array ! k)"
proof (induction array i len rc rule: fastSplice_loop.induct)
  case (1 array i len rc)
  show ?case
  proof (cases "i < len")
    case True
    let ?a = "array[i := js_read array (i + rc)]"
    have "fastSplice_loop array i len rc ! k = fastSplice_loop ?a (Suc i) len rc ! k"
      using True by (subst fastSplice_loop.simps) simp
    also have "\<dots> = (if Suc i \<le> k then js_read ?a (k + rc) else ?a ! k)"
      using "1.IH" [OF True] "1.prems" by simp
    also have "\<dots> = (if i \<le> k then js_read array (k + rc) else array ! k)"
      using "1.prems" True by (cases "k = i") (auto simp: js_read_def nth_list_update)
    finally show ?thesis .
  next
    case False
    then show ?thesis using "1.prems" by (subst fastSplice_loop.simps) simp
  qed
qed

text \<open>Splicing one element out of an array at an index in range removes exactly that cell.\<close>

lemma fastSplice_one:
  assumes "i < length xs"
  shows "fastSplice xs i 1 = take i xs @ drop (Suc i) xs"
proof (rule nth_equalityI)
  show "length (fastSplice xs i 1) = length (take i xs @ drop (Suc i) xs)"
    using assms by (simp add: fastSplice_def Let_def)
  fix k assume "k < length (fastSplice xs i 1)"
  then have "k < length xs - 1" using assms by (simp add: fastSplice_def Let_def)
  then show "fastSplice xs i 1 ! k = (take i xs @ drop (Suc i) xs) ! k"
    using assms
    by (auto simp: fastSplice_def Let_def fastSplice_loop_nth js_read_def nth_append)
qed

lemma fastSplice_out_of_range: "length xs \<le> i \<Longrightarrow> fastSplice xs i n = xs"
  by (simp add: fastSplice_def)

lemma indexOf_None: "indexOf xs x = None \<longleftrightarrow> x \<notin> set xs"
  by (induction xs) auto

lemma indexOf_Some:
  "indexOf xs x = Some i \<Longrightarrow> i < length xs \<and> xs ! i = x \<and> x \<notin> set (take i xs)"
  by (induction xs arbitrary: i) (auto split: if_splits)

lemma take_drop_remove1:
  "indexOf xs x = Some i \<Longrightarrow> take i xs @ drop (Suc i) xs = remove1 x xs"
  by (induction xs arbitrary: i) (auto split: if_splits)

lemma fastSplice_indexOf:
  "indexOf xs x = Some i \<Longrightarrow> fastSplice xs i 1 = remove1 x xs"
  using fastSplice_one indexOf_Some take_drop_remove1 by metis

lemma fastSplice_indexOf_Suc:
  "indexOf xs x = Some i \<Longrightarrow> fastSplice xs i (Suc 0) = remove1 x xs"
  using fastSplice_indexOf [of xs x i] by simp

section \<open>Facts about membership bookkeeping\<close>

text \<open>Removing an absent reference is a no-op, so both removals are \<open>remove1\<close>.\<close>

lemma Entity_removeSystem_eq:
  "Entity_removeSystem w e s = upd_entity w e (\<lambda>x. x\<lparr>systems := remove1 s (systems x)\<rparr>)"
proof (cases "indexOf (systems (entity_heap w e)) s")
  case None
  then have "remove1 s (systems (entity_heap w e)) = systems (entity_heap w e)"
    by (simp add: remove1_idem indexOf_None)
  then show ?thesis using None by (simp add: Entity_removeSystem_def upd_entity_def)
next
  case (Some i)
  then show ?thesis
    by (simp add: Entity_removeSystem_def upd_entity_def fastSplice_indexOf_Suc)
qed

lemma System_removeEntity_eq:
  "System_removeEntity w s e =
     (if e \<in> set (entities (system_heap w s))
      then emit (upd_system (upd_entity w e (\<lambda>x. x\<lparr>systems := remove1 s (systems x)\<rparr>)) s
                   (\<lambda>y. y\<lparr>entities := remove1 e (entities y)\<rparr>)) (Exit s e)
      else w)"
proof (cases "indexOf (entities (system_heap w s)) e")
  case None
  then have "e \<notin> set (entities (system_heap w s))" by (simp add: indexOf_None)
  then show ?thesis using None by (simp add: System_removeEntity_def)
next
  case (Some i)
  then have "e \<in> set (entities (system_heap w s))"
    using indexOf_None [of "entities (system_heap w s)" e] by auto
  then show ?thesis using Some
    by (simp add: System_removeEntity_def Entity_removeSystem_eq upd_system_def upd_entity_def
        fastSplice_indexOf_Suc)
qed

lemma System_removeEntity_systems_length:
  "length (systems (entity_heap (System_removeEntity w s e) e'))
     \<le> length (systems (entity_heap w e'))"
  by (simp add: System_removeEntity_eq upd_system_def upd_entity_def emit_def length_remove1)

text \<open>
  The loop of \<open>Entity.dispose\<close> ends: the index grows and the array it runs over never does.
\<close>

termination Entity_dispose_loop
proof (relation "measure (\<lambda>(w, e, i). length (systems (entity_heap w e)) - i)")
  show "wf (measure (\<lambda>(w, e, i). length (systems (entity_heap w e)) - i))" by simp
next
  fix w :: world and e i
  assume "i < length (systems (entity_heap w e))"
  moreover have
    "length (systems (entity_heap (System_removeEntity w (systems (entity_heap w e) ! i) e) e))
       \<le> length (systems (entity_heap w e))"
    by (rule System_removeEntity_systems_length)
  ultimately show
    "((System_removeEntity w (systems (entity_heap w e) ! i) e, e, Suc i), (w, e, i))
       \<in> measure (\<lambda>(w, e, i). length (systems (entity_heap w e)) - i)"
    by simp
qed

declare Entity_dispose_loop.simps [simp del]

section \<open>ECS.update when the first system misses its gate\<close>

text \<open>
  C10. When the first system of the list misses its frequency gate, \<open>ECS.update\<close> leaves
  the loop at once: the call changes nothing but the tick counter and the time stamp. No
  reconciliation runs, the dirty queue and every dirty flag stay as they were, and no
  hook is invoked. So a tick reconciles dirty entities only if its first system passes
  the gate.
\<close>

theorem update_first_gate_miss:
  assumes "ecs_systems w = s # rest"
    and "gate_miss (updateCounter w) (frequency (system_heap w s))"
  shows "ECS_update w now = w\<lparr>updateCounter := updateCounter w + 1, lastUpdate := now\<rparr>
       \<and> entitiesSystemsDirty (ECS_update w now) = entitiesSystemsDirty w
       \<and> entity_heap (ECS_update w now) = entity_heap w
       \<and> system_heap (ECS_update w now) = system_heap w
       \<and> trace (ECS_update w now) = trace w"
  using assms by (simp add: ECS_update_def Let_def)

theorem update_first_gate_miss_witness:
  "entitiesSystemsDirty ecs_tick1_dirty = [0]
   \<and> systemsDirty (entity_heap ecs_tick1_dirty 0)
   \<and> entitiesSystemsDirty (ECS_update ecs_tick1_dirty 16) = [0]
   \<and> systemsDirty (entity_heap (ECS_update ecs_tick1_dirty 16) 0)
   \<and> updateCounter (ECS_update ecs_tick1_dirty 16) = 2"
proof -
  have h1: "ecs_systems ecs_tick1_dirty = [1]" by code_simp
  have h2: "gate_miss (updateCounter ecs_tick1_dirty)
              (frequency (system_heap ecs_tick1_dirty 1))" by code_simp
  have q: "entitiesSystemsDirty ecs_tick1_dirty = [0]" by code_simp
  have d: "systemsDirty (entity_heap ecs_tick1_dirty 0)" by code_simp
  have c: "updateCounter ecs_tick1_dirty = 1" by code_simp
  from update_first_gate_miss [OF h1 h2, of 16] q d c show ?thesis by simp
qed

section \<open>Entity.dispose\<close>

text \<open>
  C5 (the code departs from the claim). On an entity that is a member of the systems 1
  and 2, \<open>Entity.dispose\<close> invokes the exit hook of system 1 only: the removal splices the
  array the loop runs over, so the iterator's index 1 is already past its end. The
  entity stays a member of system 2, on both sides.
\<close>

theorem dispose_two_systems_exits_first_only:
  "systems (entity_heap ecs_two_systems 0) = [1, 2]
   \<and> entities (system_heap ecs_two_systems 1) = [0]
   \<and> entities (system_heap ecs_two_systems 2) = [0]
   \<and> trace (Entity_dispose ecs_two_systems 0) = trace ecs_two_systems @ [Exit 1 0]
   \<and> systems (entity_heap (Entity_dispose ecs_two_systems 0) 0) = [2]
   \<and> entities (system_heap (Entity_dispose ecs_two_systems 0) 1) = []
   \<and> entities (system_heap (Entity_dispose ecs_two_systems 0) 2) = [0]"
  by code_simp

section \<open>ECS.removeEntity and ECS.removeEntityById\<close>

text \<open>
  C4 (the code departs from the claim). Removing entity 0 returns it, but
  \<open>removeEntityIfDirty\<close> splices the population at the entity's index in the dirty queue:
  the dirty queue keeps entity 0, and the second splice, at the same index, takes
  entity 1 out of the population as well. \<open>removeEntityById\<close> does the same.
\<close>

theorem removeEntity_splices_population_twice:
  "ecs_entities ecs_two_entities = [0, 1]
   \<and> entitiesSystemsDirty ecs_two_entities = [0, 1]
   \<and> fst (ECS_removeEntity ecs_two_entities 0) = Some 0
   \<and> ecs_entities (snd (ECS_removeEntity ecs_two_entities 0)) = []
   \<and> entitiesSystemsDirty (snd (ECS_removeEntity ecs_two_entities 0)) = [0, 1]
   \<and> fst (removeEntityById ecs_two_entities 0) = Some 0
   \<and> ecs_entities (snd (removeEntityById ecs_two_entities 0)) = []
   \<and> entitiesSystemsDirty (snd (removeEntityById ecs_two_entities 0)) = [0, 1]"
  by code_simp

section \<open>Marking entities dirty\<close>

lemma setSystemsDirty_queue:
  "entitiesSystemsDirty (setSystemsDirty w e) =
     entitiesSystemsDirty w @ (if \<not> is_dirty w e \<and> attached w e then [e] else [])"
  by (simp add: setSystemsDirty_def upd_entity_def is_dirty_def attached_def)

lemma setSystemsDirty_dirty:
  "is_dirty (setSystemsDirty w e) x = (is_dirty w x \<or> (x = e \<and> attached w e))"
  by (auto simp add: setSystemsDirty_def upd_entity_def is_dirty_def attached_def)

lemma setSystemsDirty_attached: "attached (setSystemsDirty w e) x = attached w x"
  by (simp add: setSystemsDirty_def upd_entity_def attached_def)

lemma upd_components_flags:
  "is_dirty (upd_entity w e (\<lambda>x. x\<lparr>components := f x\<rparr>)) x = is_dirty w x"
  "attached (upd_entity w e (\<lambda>x. x\<lparr>components := f x\<rparr>)) x = attached w x"
  "entitiesSystemsDirty (upd_entity w e (\<lambda>x. x\<lparr>components := f x\<rparr>)) = entitiesSystemsDirty w"
  by (simp_all add: upd_entity_def is_dirty_def attached_def)

text \<open>One operation appends the entity to the queue or leaves the queue alone.\<close>

lemma apply_dirty_op_step:
  "\<exists>b. entitiesSystemsDirty (apply_dirty_op w (e, op)) =
         entitiesSystemsDirty w @ (if b then [e] else [])
     \<and> (b \<longrightarrow> \<not> is_dirty w e \<and> attached w e)
     \<and> (\<forall>x. is_dirty (apply_dirty_op w (e, op)) x = (is_dirty w x \<or> (b \<and> x = e)))
     \<and> (\<forall>x. attached (apply_dirty_op w (e, op)) x = attached w x)"
proof (cases op)
  case SetSystemsDirty
  show ?thesis
    unfolding SetSystemsDirty
    by (rule exI [of _ "\<not> is_dirty w e \<and> attached w e"])
       (auto simp: setSystemsDirty_queue setSystemsDirty_dirty setSystemsDirty_attached)
next
  case (AddComponent name c)
  show ?thesis
    unfolding AddComponent
    by (rule exI [of _ "\<not> is_dirty w e \<and> attached w e"])
       (auto simp: addComponent_def setSystemsDirty_queue setSystemsDirty_dirty
          setSystemsDirty_attached upd_components_flags)
next
  case (RemoveComponent name)
  show ?thesis
    unfolding RemoveComponent
    by (rule exI [of _ "components (entity_heap w e) name \<noteq> None
                          \<and> \<not> is_dirty w e \<and> attached w e"])
       (auto simp: removeComponent_def setSystemsDirty_queue setSystemsDirty_dirty
          setSystemsDirty_attached upd_components_flags)
qed

lemma apply_dirty_ops_inv:
  "\<exists>added. entitiesSystemsDirty (apply_dirty_ops w ops) = entitiesSystemsDirty w @ added
     \<and> distinct added
     \<and> (\<forall>x. x \<in> set added \<longrightarrow> \<not> is_dirty w x \<and> attached w x)
     \<and> (\<forall>x. is_dirty (apply_dirty_ops w ops) x = (is_dirty w x \<or> x \<in> set added))
     \<and> (\<forall>x. attached (apply_dirty_ops w ops) x = attached w x)"
proof (induction ops arbitrary: w)
  case Nil
  show ?case by (simp add: apply_dirty_ops_def)
next
  case (Cons p ops)
  obtain e op where p: "p = (e, op)" by (cases p)
  let ?w1 = "apply_dirty_op w (e, op)"
  obtain b where b:
    "entitiesSystemsDirty ?w1 = entitiesSystemsDirty w @ (if b then [e] else [])"
    "b \<longrightarrow> \<not> is_dirty w e \<and> attached w e"
    "\<forall>x. is_dirty ?w1 x = (is_dirty w x \<or> (b \<and> x = e))"
    "\<forall>x. attached ?w1 x = attached w x"
    using apply_dirty_op_step [of w e op] by blast
  obtain added where a:
    "entitiesSystemsDirty (apply_dirty_ops ?w1 ops) = entitiesSystemsDirty ?w1 @ added"
    "distinct added"
    "\<forall>x. x \<in> set added \<longrightarrow> \<not> is_dirty ?w1 x \<and> attached ?w1 x"
    "\<forall>x. is_dirty (apply_dirty_ops ?w1 ops) x = (is_dirty ?w1 x \<or> x \<in> set added)"
    "\<forall>x. attached (apply_dirty_ops ?w1 ops) x = attached ?w1 x"
    using Cons.IH [of ?w1] by blast
  have run: "apply_dirty_ops w (p # ops) = apply_dirty_ops ?w1 ops"
    by (simp add: apply_dirty_ops_def p)
  show ?case
    unfolding run
    by (rule exI [of _ "(if b then [e] else []) @ added"]) (use a b in auto)
qed

lemma distinct_count_list_le1: "distinct xs \<Longrightarrow> count_list xs x \<le> 1"
  by (induction xs) (auto simp: count_list_0_iff)

text \<open>
  C7. Over any run of dirty-marking operations the dirty queue only grows at its end, and
  what is appended holds no entity twice: every entity is enqueued at most once. An
  entity that was already dirty is not enqueued again, and an entity that is not
  attached to a coordinator is not enqueued and keeps its dirty flag as it was.
\<close>

theorem dirty_marking_enqueues_once:
  "entitiesSystemsDirty (apply_dirty_ops w ops)
     = entitiesSystemsDirty w @ enqueued w (apply_dirty_ops w ops)
   \<and> distinct (enqueued w (apply_dirty_ops w ops))
   \<and> count_list (enqueued w (apply_dirty_ops w ops)) e \<le> 1
   \<and> (is_dirty w e \<longrightarrow> e \<notin> set (enqueued w (apply_dirty_ops w ops)))
   \<and> (\<not> attached w e \<longrightarrow>
        e \<notin> set (enqueued w (apply_dirty_ops w ops))
        \<and> is_dirty (apply_dirty_ops w ops) e = is_dirty w e)"
proof -
  obtain added where a:
    "entitiesSystemsDirty (apply_dirty_ops w ops) = entitiesSystemsDirty w @ added"
    "distinct added"
    "\<forall>x. x \<in> set added \<longrightarrow> \<not> is_dirty w x \<and> attached w x"
    "\<forall>x. is_dirty (apply_dirty_ops w ops) x = (is_dirty w x \<or> x \<in> set added)"
    using apply_dirty_ops_inv [of w ops] by blast
  have e: "enqueued w (apply_dirty_ops w ops) = added"
    by (simp add: enqueued_def a(1))
  have "count_list added e \<le> 1"
    using a(2) by (rule distinct_count_list_le1)
  then show ?thesis unfolding e using a by auto
qed

theorem dirty_marking_enqueues_once_witness:
  "attached ecs_clean 0 \<and> \<not> is_dirty ecs_clean 0 \<and> \<not> attached ecs_clean 1
   \<and> enqueued ecs_clean (apply_dirty_ops ecs_clean dirty_run) = [0]
   \<and> count_list (enqueued ecs_clean (apply_dirty_ops ecs_clean dirty_run)) 0 \<le> 1
   \<and> 1 \<notin> set (enqueued ecs_clean (apply_dirty_ops ecs_clean dirty_run))
   \<and> is_dirty (apply_dirty_ops ecs_clean dirty_run) 1 = is_dirty ecs_clean 1"
proof -
  have h: "attached ecs_clean 0" "\<not> is_dirty ecs_clean 0" "\<not> attached ecs_clean 1"
    by code_simp+
  have q: "enqueued ecs_clean (apply_dirty_ops ecs_clean dirty_run) = [0]"
    by code_simp
  from h q dirty_marking_enqueues_once [of ecs_clean dirty_run 0]
       dirty_marking_enqueues_once [of ecs_clean dirty_run 1]
  show ?thesis by simp
qed

section \<open>Entity.updateComponent\<close>

lemma updateComponent_loop_keeps_presence:
  "(snd (updateComponent_loop component m ps) = None) = (component = None)"
  by (induction component m ps rule: updateComponent_loop.induct)
     (auto split: sum.splits bool.splits option.splits)

text \<open>
  Whether the name is held or not and whether the call throws or not, \<open>updateComponent\<close>
  leaves the dirty queue, every dirty flag, every membership cache and every system as
  they were.
\<close>

lemma updateComponent_bookkeeping:
  "entitiesSystemsDirty (state_after (updateComponent w e name data)) = entitiesSystemsDirty w
   \<and> systemsDirty (entity_heap (state_after (updateComponent w e name data)) x)
       = systemsDirty (entity_heap w x)
   \<and> systems (entity_heap (state_after (updateComponent w e name data)) x)
       = systems (entity_heap w x)
   \<and> system_heap (state_after (updateComponent w e name data)) = system_heap w"
  by (simp add: updateComponent_def state_after_def upd_entity_def Let_def
      split: prod.split option.split)

text \<open>
  On an absent name a call with a field to write throws, at the write to \<open>undefined\<close>.
  On a name that is held, a call with a field writes it and returns; a call whose \<open>data\<close>
  has a field named \<open>hasOwnProperty\<close> throws at \<open>data.hasOwnProperty(key)\<close>.
\<close>

lemma updateComponent_examples:
  "updateComponent ecs_all 0 ''X'' foo_object = Inl (TypeError, ecs_all)
   \<and> isl (updateComponent ecs_with_X 0 ''X'' shadowing_object)
   \<and> \<not> isl (updateComponent ecs_with_X 0 ''X'' foo_object)
   \<and> components (entity_heap (state_after (updateComponent ecs_with_X 0 ''X'' foo_object)) 0) ''X''
       = Some [''foo'' \<mapsto> JStr ''bar'']"
  by (simp add: updateComponent_def foo_object_def shadowing_object_def
      resolve_hasOwnProperty_def call_hasOwnProperty_def state_after_def ecs_with_X_def
      addComponent_def setSystemsDirty_def upd_entity_def
      ecs_all_def new_ECS_def fresh_entities_def new_Entity_def)

text \<open>
  C8 (the code departs from the claim). Entity 0 holds no component X, and
  \<open>updateComponent\<close> is called on the name X with the empty object \<open>{}\<close>. The loop has
  nothing to iterate over: the call returns normally with the state as it was. No error
  reaches the caller. The component is not created either, although the doc comment of
  the method says that an absent component is created silently.
\<close>

theorem updateComponent_empty_data_returns:
  "components (entity_heap ecs_all 0) ''X'' = None
   \<and> updateComponent ecs_all 0 ''X'' empty_object = Inr ecs_all
   \<and> components (entity_heap (state_after (updateComponent ecs_all 0 ''X'' empty_object)) 0) ''X''
       = None"
  by (simp add: updateComponent_def empty_object_def resolve_hasOwnProperty_def state_after_def
      ecs_all_def new_ECS_def fresh_entities_def new_Entity_def)

section \<open>Agreement of member lists and membership caches\<close>

lemma count_list_remove1:
  "count_list (remove1 x xs) y = count_list xs y - (if x = y then 1 else 0)"
  by (induction xs) auto

lemma fold_invariant:
  assumes "P w" and "\<And>x w. P w \<Longrightarrow> P (f x w)"
  shows "P (fold f xs w)"
  using assms(1) by (induction xs arbitrary: w) (auto intro: assms(2))

lemma agrees_on_cong:
  "entities (system_heap w' s) = entities (system_heap w s) \<Longrightarrow>
   systems (entity_heap w' e) = systems (entity_heap w e) \<Longrightarrow>
   agrees_on w' s e = agrees_on w s e"
  by (simp add: agrees_on_def)

lemma agrees_on_iff:
  "agrees_on w s e \<Longrightarrow>
   (e \<in> set (entities (system_heap w s))) = (s \<in> set (systems (entity_heap w e)))"
  by (metis agrees_on_def count_list_0_iff)

lemma agrees_on_addEntity:
  "agrees_on w s e \<Longrightarrow> agrees_on (System_addEntity w s0 e0) s e"
  by (auto simp: agrees_on_def System_addEntity_def Entity_addSystem_def upd_system_def
      upd_entity_def emit_def)

lemma agrees_on_removeEntity:
  "agrees_on w s e \<Longrightarrow> agrees_on (System_removeEntity w s0 e0) s e"
  by (auto simp: agrees_on_def System_removeEntity_eq upd_system_def upd_entity_def emit_def
      count_list_remove1 count_list_0_iff)

lemma agrees_on_dispose_loop:
  "agrees_on w s e \<Longrightarrow> agrees_on (Entity_dispose_loop w e0 i) s e"
proof (induction w e0 i rule: Entity_dispose_loop.induct)
  case (1 w e0 i)
  show ?case
  proof (cases "i < length (systems (entity_heap w e0))")
    case True
    then show ?thesis
      using "1.IH" [OF True] "1.prems"
      by (subst Entity_dispose_loop.simps) (simp add: agrees_on_removeEntity)
  next
    case False
    then show ?thesis using "1.prems" by (subst Entity_dispose_loop.simps) simp
  qed
qed

lemma agrees_on_Entity_dispose:
  "agrees_on w s e \<Longrightarrow> agrees_on (Entity_dispose w e0) s e"
  by (simp add: Entity_dispose_def agrees_on_dispose_loop)

lemma agrees_on_setSystemsDirty:
  "agrees_on (setSystemsDirty w e0) s e = agrees_on w s e"
  by (rule agrees_on_cong) (simp_all add: setSystemsDirty_def upd_entity_def)

lemma agrees_on_ECS_addEntity:
  "agrees_on (ECS_addEntity w e0) s e = agrees_on w s e"
  by (rule agrees_on_cong)
     (simp_all add: ECS_addEntity_def addToECS_def setSystemsDirty_def upd_entity_def)

lemma agrees_on_addComponent:
  "agrees_on (addComponent w e0 name c) s e = agrees_on w s e"
  by (rule agrees_on_cong) (simp_all add: addComponent_def setSystemsDirty_def upd_entity_def)

lemma agrees_on_removeComponent:
  "agrees_on (removeComponent w e0 name) s e = agrees_on w s e"
  by (rule agrees_on_cong) (simp_all add: removeComponent_def setSystemsDirty_def upd_entity_def)

lemma agrees_on_ecs_entities [simp]:
  "agrees_on (w\<lparr>ecs_entities := es\<rparr>) s e = agrees_on w s e"
  "agrees_on (w\<lparr>ecs_systems := ss\<rparr>) s e = agrees_on w s e"
  "agrees_on (w\<lparr>entitiesSystemsDirty := ds\<rparr>) s e = agrees_on w s e"
  "agrees_on (w\<lparr>updateCounter := n, lastUpdate := t\<rparr>) s e = agrees_on w s e"
  by (simp_all add: agrees_on_def)

lemma agrees_on_removeEntityIfDirty:
  "agrees_on (removeEntityIfDirty w e0) s e = agrees_on w s e"
  by (simp add: removeEntityIfDirty_def split: option.split)

lemma agrees_on_ECS_removeEntity:
  "agrees_on w s e \<Longrightarrow> agrees_on (snd (ECS_removeEntity w e0)) s e"
  by (simp add: ECS_removeEntity_def Let_def agrees_on_removeEntityIfDirty
      agrees_on_Entity_dispose split: option.split)

lemma agrees_on_removeEntityById_loop:
  "agrees_on w s e \<Longrightarrow> agrees_on (snd (removeEntityById_loop w ident i)) s e"
proof (induction w ident i rule: removeEntityById_loop.induct)
  case (1 w ident i)
  show ?case
    using "1.IH" "1.prems"
    by (subst removeEntityById_loop.simps)
       (simp add: Let_def agrees_on_removeEntityIfDirty agrees_on_Entity_dispose)
qed

lemma agrees_on_clean_step:
  "agrees_on w s e \<Longrightarrow> agrees_on (clean_step w e0 s0) s e"
  by (simp add: clean_step_def Let_def agrees_on_addEntity agrees_on_removeEntity)

lemma agrees_on_clean_entity:
  "agrees_on w s e \<Longrightarrow> agrees_on (clean_entity w e0) s e"
proof -
  assume a: "agrees_on w s e"
  have "agrees_on (fold (\<lambda>s w'. clean_step w' e0 s) (ecs_systems w) w) s e"
    by (rule fold_invariant [where P = "\<lambda>w. agrees_on w s e"]) (simp_all add: a agrees_on_clean_step)
  then show ?thesis
    by (simp add: clean_entity_def agrees_on_def upd_entity_def)
qed

lemma agrees_on_cleanDirtyEntities:
  "agrees_on w s e \<Longrightarrow> agrees_on (cleanDirtyEntities w) s e"
proof -
  assume a: "agrees_on w s e"
  have "agrees_on (fold (\<lambda>e w'. clean_entity w' e) (entitiesSystemsDirty w) w) s e"
    by (rule fold_invariant [where P = "\<lambda>w. agrees_on w s e"]) (simp_all add: a agrees_on_clean_entity)
  then show ?thesis by (simp add: cleanDirtyEntities_def)
qed

lemma fold_emit:
  "fold (\<lambda>x w'. emit w' (f x)) xs w = w\<lparr>trace := trace w @ map f xs\<rparr>"
  by (induction xs arbitrary: w) (simp_all add: emit_def)

lemma System_updateAll_eq:
  "System_updateAll w s elapsed =
     w\<lparr>trace := trace w @ PreUpdate s # map (\<lambda>e. Update s e elapsed) (entities (system_heap w s))
                  @ [PostUpdate s]\<rparr>"
  by (simp add: System_updateAll_def fold_emit) (simp add: emit_def)

lemma agrees_on_updateAll:
  "agrees_on (System_updateAll w s0 elapsed) s e = agrees_on w s e"
  by (rule agrees_on_cong) (simp_all add: System_updateAll_eq)

lemma agrees_on_update_loop:
  "agrees_on w s e \<Longrightarrow> agrees_on (ECS_update_loop w ss elapsed) s e"
  by (induction ss arbitrary: w) (simp_all add: agrees_on_updateAll agrees_on_cleanDirtyEntities)

lemma agrees_on_ECS_update:
  "agrees_on w s e \<Longrightarrow> agrees_on (ECS_update w now) s e"
  by (simp add: ECS_update_def Let_def agrees_on_update_loop)

lemma agrees_on_ECS_addSystem:
  "agrees_on w s e \<Longrightarrow> agrees_on (ECS_addSystem w s0) s e"
  unfolding ECS_addSystem_def
  by (rule fold_invariant [where P = "\<lambda>w. agrees_on w s e"]) (simp_all add: agrees_on_addEntity)

lemma agrees_on_System_dispose:
  "s \<noteq> s0 \<Longrightarrow> agrees_on w s e \<Longrightarrow> agrees_on (System_dispose w s0) s e"
  unfolding System_dispose_def
  by (rule fold_invariant [where P = "\<lambda>w. agrees_on w s e"])
     (auto simp: agrees_on_def Entity_removeSystem_eq upd_entity_def emit_def count_list_remove1)

lemma agrees_on_ECS_removeSystem:
  "s \<noteq> s0 \<Longrightarrow> agrees_on w s e \<Longrightarrow> agrees_on (ECS_removeSystem w s0) s e"
  by (simp add: ECS_removeSystem_def agrees_on_System_dispose split: option.split)

text \<open>
  Every operation other than the disposal of a system keeps the agreement of every
  pair, whatever entity or system it is called on; the disposal of a system keeps it
  for the pairs of every other system.
\<close>

lemma agreement_kept:
  assumes "agrees_on w s e"
  shows "(e \<in> set (entities (system_heap w s))) = (s \<in> set (systems (entity_heap w e)))
       \<and> agrees_on (ECS_addEntity w e0) s e
       \<and> agrees_on (snd (ECS_removeEntity w e0)) s e
       \<and> agrees_on (snd (removeEntityById w ident)) s e
       \<and> agrees_on (Entity_dispose w e0) s e
       \<and> agrees_on (cleanDirtyEntities w) s e
       \<and> agrees_on (ECS_update w now) s e
       \<and> agrees_on (ECS_addSystem w s0) s e
       \<and> agrees_on (System_addEntity w s0 e0) s e
       \<and> agrees_on (System_removeEntity w s0 e0) s e
       \<and> agrees_on (setSystemsDirty w e0) s e
       \<and> agrees_on (addComponent w e0 name c) s e
       \<and> agrees_on (removeComponent w e0 name) s e
       \<and> (s \<noteq> s0 \<longrightarrow> agrees_on (System_dispose w s0) s e
                       \<and> agrees_on (ECS_removeSystem w s0) s e)"
  using assms
  by (simp add: agrees_on_iff agrees_on_ECS_addEntity agrees_on_ECS_removeEntity
      removeEntityById_def agrees_on_removeEntityById_loop agrees_on_Entity_dispose
      agrees_on_cleanDirtyEntities agrees_on_ECS_update agrees_on_ECS_addSystem
      agrees_on_addEntity agrees_on_removeEntity agrees_on_setSystemsDirty
      agrees_on_addComponent agrees_on_removeComponent agrees_on_System_dispose
      agrees_on_ECS_removeSystem)

text \<open>
  C1 (the code departs from the claim). System 1 is registered and entity 0 is a member
  of it, in its member list and in the entity's cache. \<open>System.dispose\<close> on system 1
  calls \<open>entity.removeSystem\<close> and the exit hook but does not splice the member list, as
  \<open>System.removeEntity\<close> does: on return the system is still registered, entity 0 is
  still in its member list, and system 1 is no longer in the entity's cache.
\<close>

theorem System_dispose_breaks_agreement:
  "1 \<in> set (ecs_systems ecs_two_systems)
   \<and> 0 \<in> set (entities (system_heap ecs_two_systems 1))
   \<and> 1 \<in> set (systems (entity_heap ecs_two_systems 0))
   \<and> 1 \<in> set (ecs_systems (System_dispose ecs_two_systems 1))
   \<and> 0 \<in> set (entities (system_heap (System_dispose ecs_two_systems 1) 1))
   \<and> 1 \<notin> set (systems (entity_heap (System_dispose ecs_two_systems 1) 0))"
  by code_simp

section \<open>System.dispose and ECS.removeSystem\<close>

lemma removeAll_remove1: "removeAll x (remove1 x xs) = removeAll x xs"
  by (induction xs) auto

lemma funpow_remove1:
  "count_list xs x = n \<Longrightarrow> (remove1 x ^^ n) xs = removeAll x xs"
proof (induction n arbitrary: xs)
  case 0
  then show ?case by (simp add: count_list_0_iff)
next
  case (Suc n)
  have "count_list (remove1 x xs) x = n" using Suc.prems by (simp add: count_list_remove1)
  then have "(remove1 x ^^ n) (remove1 x xs) = removeAll x (remove1 x xs)" by (rule Suc.IH)
  then show ?case by (simp add: funpow_swap1 removeAll_remove1)
qed

lemma dispose_fold_systems:
  "systems (entity_heap (fold (dispose_step s) es w) e)
     = (remove1 s ^^ count_list es e) (systems (entity_heap w e))"
proof (induction es arbitrary: w)
  case Nil
  show ?case by simp
next
  case (Cons x es)
  have "systems (entity_heap (dispose_step s x w) e)
          = (if e = x then remove1 s (systems (entity_heap w e)) else systems (entity_heap w e))"
    by (simp add: dispose_step_def Entity_removeSystem_eq upd_entity_def emit_def)
  then show ?case using Cons.IH [of "dispose_step s x w"] by (simp add: funpow_swap1)
qed

lemma dispose_fold_rest:
  "trace (fold (dispose_step s) es w) = trace w @ map (Exit s) es
   \<and> system_heap (fold (dispose_step s) es w) = system_heap w
   \<and> ecs_systems (fold (dispose_step s) es w) = ecs_systems w
   \<and> ecs_entities (fold (dispose_step s) es w) = ecs_entities w"
  by (induction es arbitrary: w)
     (simp_all add: dispose_step_def Entity_removeSystem_eq upd_entity_def emit_def)

lemma System_dispose_fold: "System_dispose w s = fold (dispose_step s) (entities (system_heap w s)) w"
proof -
  have "dispose_step s = (\<lambda>e w'. emit (Entity_removeSystem w' e s) (Exit s e))"
    by (intro ext) (simp add: dispose_step_def)
  then show ?thesis by (simp add: System_dispose_def)
qed

lemma System_dispose_cache:
  "agrees_on w s e \<Longrightarrow>
   systems (entity_heap (System_dispose w s) e) = removeAll s (systems (entity_heap w e))"
  by (simp add: System_dispose_fold dispose_fold_systems funpow_remove1 agrees_on_def)

text \<open>
  What the loop of \<open>System.dispose\<close> does: it invokes the exit hook once for every entry
  of the member list, in list order, and takes the system out of the membership cache of
  every entity whose cache agreed with the list. It does not touch the member list.
  \<open>ECS.removeSystem\<close> on a registered system removes it from the list of systems and
  calls \<open>System.dispose\<close>; on a system that is not registered it does nothing.
\<close>

lemma System_dispose_effect:
  "trace (System_dispose w s) = trace w @ map (Exit s) (entities (system_heap w s))
   \<and> (agrees_on w s e \<longrightarrow>
        systems (entity_heap (System_dispose w s) e) = removeAll s (systems (entity_heap w e))
        \<and> s \<notin> set (systems (entity_heap (System_dispose w s) e)))
   \<and> entities (system_heap (System_dispose w s) s) = entities (system_heap w s)
   \<and> (s \<in> set (ecs_systems w) \<longrightarrow>
        ecs_systems (ECS_removeSystem w s) = remove1 s (ecs_systems w)
        \<and> trace (ECS_removeSystem w s) = trace w @ map (Exit s) (entities (system_heap w s))
        \<and> (agrees_on w s e \<longrightarrow>
             systems (entity_heap (ECS_removeSystem w s) e)
               = removeAll s (systems (entity_heap w e)))
        \<and> entities (system_heap (ECS_removeSystem w s) s) = entities (system_heap w s))
   \<and> (s \<notin> set (ecs_systems w) \<longrightarrow> ECS_removeSystem w s = w)"
proof -
  have d: "trace (System_dispose w s) = trace w @ map (Exit s) (entities (system_heap w s))"
    "entities (system_heap (System_dispose w s) s) = entities (system_heap w s)"
    by (simp_all add: System_dispose_fold dispose_fold_rest)
  have c: "agrees_on w s e \<longrightarrow>
        systems (entity_heap (System_dispose w s) e) = removeAll s (systems (entity_heap w e))
        \<and> s \<notin> set (systems (entity_heap (System_dispose w s) e))"
    by (simp add: System_dispose_cache)
  have n: "s \<notin> set (ecs_systems w) \<longrightarrow> ECS_removeSystem w s = w"
    by (simp add: ECS_removeSystem_def indexOf_None [symmetric])
  have r: "s \<in> set (ecs_systems w) \<longrightarrow>
        ecs_systems (ECS_removeSystem w s) = remove1 s (ecs_systems w)
        \<and> trace (ECS_removeSystem w s) = trace w @ map (Exit s) (entities (system_heap w s))
        \<and> (agrees_on w s e \<longrightarrow>
             systems (entity_heap (ECS_removeSystem w s) e)
               = removeAll s (systems (entity_heap w e)))
        \<and> entities (system_heap (ECS_removeSystem w s) s) = entities (system_heap w s)"
  proof
    assume "s \<in> set (ecs_systems w)"
    then obtain i where i: "indexOf (ecs_systems w) s = Some i"
      using indexOf_None [of "ecs_systems w" s] by auto
    let ?w1 = "w\<lparr>ecs_systems := remove1 s (ecs_systems w)\<rparr>"
    have e: "ECS_removeSystem w s = System_dispose ?w1 s"
      using i by (simp add: ECS_removeSystem_def fastSplice_indexOf_Suc)
    have a: "agrees_on ?w1 s e = agrees_on w s e" by simp
    show "ecs_systems (ECS_removeSystem w s) = remove1 s (ecs_systems w)
        \<and> trace (ECS_removeSystem w s) = trace w @ map (Exit s) (entities (system_heap w s))
        \<and> (agrees_on w s e \<longrightarrow>
             systems (entity_heap (ECS_removeSystem w s) e)
               = removeAll s (systems (entity_heap w e)))
        \<and> entities (system_heap (ECS_removeSystem w s) s) = entities (system_heap w s)"
      unfolding e using System_dispose_cache [of ?w1 s e] a
      by (simp add: System_dispose_fold dispose_fold_rest)
  qed
  from d c n r show ?thesis by blast
qed

text \<open>
  C6 (the code departs from the claim). Entity 0 is the one member of system 1. After
  \<open>System.dispose\<close> on system 1, and after \<open>ECS.removeSystem\<close> on it, the member list of
  the system still holds entity 0: the loop of \<open>System.dispose\<close> leaves out the splice of
  \<open>this.entities\<close> that \<open>System.removeEntity\<close> performs.
\<close>

theorem System_dispose_keeps_member_list:
  "entities (system_heap ecs_two_systems 1) = [0]
   \<and> entities (system_heap (System_dispose ecs_two_systems 1) 1) = [0]
   \<and> entities (system_heap (ECS_removeSystem ecs_two_systems 1) 1) = [0]"
  by code_simp

text \<open>
  The stale entry shows when the system is added again: the back-fill of \<open>ECS.addSystem\<close>
  appends entity 0 to a list that still holds it, and the next tick updates the entity
  twice in system 1.
\<close>

lemma readded_system_updates_twice:
  "entities (system_heap ecs_readded 1) = [0, 0]
   \<and> systems (entity_heap ecs_readded 0) = [2, 1]
   \<and> drop (length (trace ecs_readded)) (trace (ECS_update ecs_readded 9))
       = [PreUpdate 2, Update 2 0 4, PostUpdate 2,
          PreUpdate 1, Update 1 0 4, Update 1 0 4, PostUpdate 1]"
  by code_simp

section \<open>Redundant bookkeeping calls\<close>

text \<open>
  C9 (as the code has it). \<open>System.removeEntity\<close> for a non-member, \<open>Entity.removeSystem\<close>
  for an absent system and \<open>removeComponent\<close> for an absent name change nothing, and
  \<open>removeComponent\<close> called twice is \<open>removeComponent\<close> called once. \<open>System.addEntity\<close>
  has no such check: every call appends the entity to the member list and the system to
  the cache and invokes the enter hook, also for an entity that is a member already;
  list and cache still agree afterwards.
\<close>

theorem redundant_bookkeeping_calls:
  "(e \<notin> set (entities (system_heap w s)) \<longrightarrow> System_removeEntity w s e = w)
   \<and> (s \<notin> set (systems (entity_heap w e)) \<longrightarrow> Entity_removeSystem w e s = w)
   \<and> (components (entity_heap w e) name = None \<longrightarrow> removeComponent w e name = w)
   \<and> removeComponent (removeComponent w e name) e name = removeComponent w e name
   \<and> entities (system_heap (System_addEntity w s e) s) = entities (system_heap w s) @ [e]
   \<and> systems (entity_heap (System_addEntity w s e) e) = systems (entity_heap w e) @ [s]
   \<and> trace (System_addEntity w s e) = trace w @ [Enter s e]
   \<and> (agrees_on w s e \<longrightarrow> agrees_on (System_addEntity w s e) s e)"
proof -
  have a: "e \<notin> set (entities (system_heap w s)) \<longrightarrow> System_removeEntity w s e = w"
    by (simp add: System_removeEntity_eq)
  have b: "s \<notin> set (systems (entity_heap w e)) \<longrightarrow> Entity_removeSystem w e s = w"
    by (simp add: Entity_removeSystem_def indexOf_None [symmetric])
  have c: "components (entity_heap w e) name = None \<longrightarrow> removeComponent w e name = w"
    by (simp add: removeComponent_def)
  have d: "components (entity_heap (removeComponent w e name) e) name = None"
    by (simp add: removeComponent_def setSystemsDirty_def upd_entity_def)
  have e: "removeComponent (removeComponent w e name) e name = removeComponent w e name"
    using d by (simp add: removeComponent_def [of "removeComponent w e name"])
  have f: "entities (system_heap (System_addEntity w s e) s) = entities (system_heap w s) @ [e]"
    "systems (entity_heap (System_addEntity w s e) e) = systems (entity_heap w e) @ [s]"
    "trace (System_addEntity w s e) = trace w @ [Enter s e]"
    by (simp_all add: System_addEntity_def Entity_addSystem_def upd_system_def upd_entity_def
        emit_def)
  have g: "agrees_on w s e \<longrightarrow> agrees_on (System_addEntity w s e) s e"
    by (simp add: agrees_on_addEntity)
  from a b c e f g show ?thesis by blast
qed

theorem redundant_bookkeeping_calls_witness:
  "0 \<notin> set (entities (system_heap ecs_all 1))
   \<and> 1 \<notin> set (systems (entity_heap ecs_all 0))
   \<and> components (entity_heap ecs_all 0) ''X'' = None
   \<and> agrees_on ecs_all 1 0
   \<and> System_removeEntity ecs_all 1 0 = ecs_all
   \<and> Entity_removeSystem ecs_all 0 1 = ecs_all
   \<and> removeComponent ecs_all 0 ''X'' = ecs_all
   \<and> agrees_on (System_addEntity ecs_all 1 0) 1 0"
proof -
  have h: "0 \<notin> set (entities (system_heap ecs_all 1))"
    "1 \<notin> set (systems (entity_heap ecs_all 0))"
    "agrees_on ecs_all 1 0"
    by code_simp+
  have k: "components (entity_heap ecs_all 0) ''X'' = None"
    by (simp add: ecs_all_def new_ECS_def fresh_entities_def new_Entity_def)
  from h k redundant_bookkeeping_calls [of 0 ecs_all 1 "''X''"] show ?thesis by simp
qed

text \<open>
  The claim as stated fails for \<open>System.addEntity\<close>: a second call for the same entity
  leaves it twice in the member list and the system twice in the cache.
\<close>

theorem addEntity_twice_duplicates:
  "entities (system_heap (System_addEntity ecs_all 1 0) 1) = [0]
   \<and> systems (entity_heap (System_addEntity ecs_all 1 0) 0) = [1]
   \<and> entities (system_heap (System_addEntity (System_addEntity ecs_all 1 0) 1 0) 1) = [0, 0]
   \<and> systems (entity_heap (System_addEntity (System_addEntity ecs_all 1 0) 1 0) 0) = [1, 1]"
  by code_simp

section \<open>The frequency gate of ECS.update\<close>

lemma updated_systems_append:
  "updated_systems (xs @ ys) = updated_systems xs @ updated_systems ys"
  by (induction xs rule: updated_systems.induct) simp_all

lemma fold_frame:
  assumes "\<And>x w. g (f x w) = g w"
  shows "g (fold f xs w) = g w"
  by (induction xs arbitrary: w) (simp_all add: assms)

lemma schedule_view_addEntity: "schedule_view (System_addEntity w s e) = schedule_view w"
  by (auto simp: schedule_view_def System_addEntity_def Entity_addSystem_def upd_system_def
      upd_entity_def emit_def updated_systems_append fun_eq_iff)

lemma schedule_view_removeEntity: "schedule_view (System_removeEntity w s e) = schedule_view w"
  by (auto simp: schedule_view_def System_removeEntity_eq upd_system_def
      upd_entity_def emit_def updated_systems_append fun_eq_iff)

lemma schedule_view_clean_step: "schedule_view (clean_step w e s) = schedule_view w"
  by (simp add: clean_step_def Let_def schedule_view_addEntity schedule_view_removeEntity)

lemma schedule_view_clean_entity: "schedule_view (clean_entity w e) = schedule_view w"
proof -
  have "schedule_view (fold (\<lambda>s w'. clean_step w' e s) (ecs_systems w) w) = schedule_view w"
    by (rule fold_frame) (rule schedule_view_clean_step)
  then show ?thesis by (simp add: clean_entity_def schedule_view_def upd_entity_def)
qed

lemma schedule_view_cleanDirtyEntities: "schedule_view (cleanDirtyEntities w) = schedule_view w"
proof -
  have "schedule_view (fold (\<lambda>e w'. clean_entity w' e) (entitiesSystemsDirty w) w)
          = schedule_view w"
    by (rule fold_frame) (rule schedule_view_clean_entity)
  then show ?thesis by (simp add: cleanDirtyEntities_def schedule_view_def)
qed

lemma updated_systems_updates:
  "updated_systems (map (\<lambda>e. Update s e elapsed) es @ [PostUpdate s]) = []"
  by (induction es) simp_all

lemma schedule_view_updateAll:
  "schedule_view (System_updateAll w s elapsed)
     = (updated_systems (trace w) @ [s], ecs_systems w, updateCounter w,
        \<lambda>s. frequency (system_heap w s))"
  using updated_systems_updates [of s elapsed "entities (system_heap w s)"]
  by (simp add: schedule_view_def System_updateAll_eq updated_systems_append)

lemma ECS_update_loop_runs:
  "schedule_view (ECS_update_loop w ss elapsed)
     = (updated_systems (trace w)
          @ takeWhile (\<lambda>s. \<not> gate_miss (updateCounter w) (frequency (system_heap w s))) ss,
        ecs_systems w, updateCounter w, \<lambda>s. frequency (system_heap w s))"
proof (induction ss arbitrary: w)
  case Nil
  show ?case by (simp add: schedule_view_def)
next
  case (Cons s ss)
  show ?case
  proof (cases "gate_miss (updateCounter w) (frequency (system_heap w s))")
    case True
    then show ?thesis by (simp add: schedule_view_def)
  next
    case False
    define w1 where "w1 = (if entitiesSystemsDirty w \<noteq> [] then cleanDirtyEntities w else w)"
    define w2 where "w2 = System_updateAll w1 s elapsed"
    have v1: "schedule_view w1 = schedule_view w"
      by (simp add: w1_def schedule_view_cleanDirtyEntities)
    have v2: "schedule_view w2
                = (updated_systems (trace w1) @ [s], ecs_systems w1, updateCounter w1,
                   \<lambda>s. frequency (system_heap w1 s))"
      unfolding w2_def by (rule schedule_view_updateAll)
    have p1: "updated_systems (trace w1) = updated_systems (trace w)"
      "updateCounter w1 = updateCounter w"
      "\<And>x. frequency (system_heap w1 x) = frequency (system_heap w x)"
      using v1 by (simp_all add: schedule_view_def fun_eq_iff)
    have p2: "updated_systems (trace w2) = updated_systems (trace w) @ [s]"
      "updateCounter w2 = updateCounter w"
      "\<And>x. frequency (system_heap w2 x) = frequency (system_heap w x)"
      using v2 p1 by (simp_all add: schedule_view_def fun_eq_iff)
    have e2: "ecs_systems w2 = ecs_systems w"
      using v1 v2 by (simp add: schedule_view_def)
    have "ECS_update_loop w (s # ss) elapsed = ECS_update_loop w2 ss elapsed"
      using False by (simp add: w1_def w2_def)
    then show ?thesis
      using Cons.IH [of w2] False by (simp add: p2 e2)
  qed
qed

lemma runs_in_tick_eq:
  "runs_in_tick w now
     = takeWhile (\<lambda>s. \<not> gate_miss (updateCounter w) (frequency (system_heap w s))) (ecs_systems w)"
  using ECS_update_loop_runs [of w "ecs_systems w" "now - lastUpdate w"]
  by (simp add: runs_in_tick_def ECS_update_def Let_def schedule_view_def)

lemma updated_systems_ECS_update:
  "updated_systems (trace (ECS_update w now)) = updated_systems (trace w) @ runs_in_tick w now"
  using ECS_update_loop_runs [of w "ecs_systems w" "now - lastUpdate w"]
  by (simp add: runs_in_tick_def ECS_update_def Let_def schedule_view_def)

lemma updateCounter_ECS_update: "updateCounter (ECS_update w now) = updateCounter w + 1"
  using ECS_update_loop_runs [of w "ecs_systems w" "now - lastUpdate w"]
  by (simp add: ECS_update_def Let_def schedule_view_def)

lemma takeWhile_length_iff:
  assumes "i < length xs"
  shows "(i < length (takeWhile P xs)) = (\<forall>j\<le>i. P (xs ! j))"
proof
  assume l: "i < length (takeWhile P xs)"
  show "\<forall>j\<le>i. P (xs ! j)"
  proof (intro allI impI)
    fix j assume "j \<le> i"
    then have j: "j < length (takeWhile P xs)" using l by simp
    then have "takeWhile P xs ! j \<in> set (takeWhile P xs)" by simp
    then have "P (takeWhile P xs ! j)" by (blast dest: set_takeWhileD)
    then show "P (xs ! j)" using j by (simp add: takeWhile_nth)
  qed
next
  assume "\<forall>j\<le>i. P (xs ! j)"
  then have "\<And>j. j < Suc i \<Longrightarrow> P (xs ! j)" by simp
  moreover have "Suc i \<le> length xs" using assms by simp
  ultimately have "Suc i \<le> length (takeWhile P xs)" by (rule length_takeWhile_less_P_nth)
  then show "i < length (takeWhile P xs)" by simp
qed

lemma gate_miss_dvd: "0 < n \<Longrightarrow> (\<not> gate_miss c n) = (n dvd c)"
  by (auto simp: gate_miss_def dvd_eq_mod_eq_0)

text \<open>
  C2. In one call of \<open>ECS.update\<close> the systems whose \<open>updateAll\<close> is invoked are an initial
  segment of the list of systems, in list order. A system of positive frequency \<open>N\<close>
  at position \<open>i\<close>, with no system before it gated out, is in that segment exactly when
  \<open>N\<close> divides the tick counter; once a system at a position \<open>j\<close> is gated out, no
  system at a later position is. The call adds one to the counter, which starts at 0.
\<close>

theorem frequency_gating:
  "updated_systems (trace (ECS_update w now)) = updated_systems (trace w) @ runs_in_tick w now
   \<and> runs_in_tick w now = take (length (runs_in_tick w now)) (ecs_systems w)
   \<and> (i < length (ecs_systems w) \<and> (\<forall>j<i. \<not> gated_out w j)
        \<and> 0 < frequency (system_heap w (ecs_systems w ! i))
      \<longrightarrow> (i < length (runs_in_tick w now))
            = (frequency (system_heap w (ecs_systems w ! i)) dvd updateCounter w))
   \<and> (j < i \<and> i < length (ecs_systems w) \<and> gated_out w j
      \<longrightarrow> \<not> i < length (runs_in_tick w now))
   \<and> updateCounter (ECS_update w now) = updateCounter w + 1"
proof -
  let ?P = "\<lambda>s. \<not> gate_miss (updateCounter w) (frequency (system_heap w s))"
  have a: "runs_in_tick w now = take (length (runs_in_tick w now)) (ecs_systems w)"
    by (simp add: runs_in_tick_eq takeWhile_eq_take [symmetric])
  have idx: "\<And>k. k < length (ecs_systems w) \<Longrightarrow>
              (k < length (runs_in_tick w now)) = (\<forall>j\<le>k. \<not> gated_out w j)"
    by (simp add: runs_in_tick_eq takeWhile_length_iff gated_out_def)
  have b: "i < length (ecs_systems w) \<and> (\<forall>j<i. \<not> gated_out w j)
        \<and> 0 < frequency (system_heap w (ecs_systems w ! i))
      \<longrightarrow> (i < length (runs_in_tick w now))
            = (frequency (system_heap w (ecs_systems w ! i)) dvd updateCounter w)"
  proof
    assume h: "i < length (ecs_systems w) \<and> (\<forall>j<i. \<not> gated_out w j)
        \<and> 0 < frequency (system_heap w (ecs_systems w ! i))"
    then have "(i < length (runs_in_tick w now)) = (\<forall>j\<le>i. \<not> gated_out w j)"
      using idx by blast
    also have "\<dots> = (\<not> gated_out w i)" using h by (auto simp: le_less)
    also have "\<dots> = (frequency (system_heap w (ecs_systems w ! i)) dvd updateCounter w)"
      using h by (simp add: gated_out_def gate_miss_dvd)
    finally show "(i < length (runs_in_tick w now))
            = (frequency (system_heap w (ecs_systems w ! i)) dvd updateCounter w)" .
  qed
  have c: "j < i \<and> i < length (ecs_systems w) \<and> gated_out w j
      \<longrightarrow> \<not> i < length (runs_in_tick w now)"
    using idx [of i] by auto
  from a b c updated_systems_ECS_update [of w now] updateCounter_ECS_update [of w now]
  show ?thesis by blast
qed

theorem frequency_gating_witness:
  "ecs_systems ecs_tick2 = [1, 2, 3] \<and> updateCounter ecs_tick2 = 2
   \<and> runs_in_tick ecs_tick2 3 = [1, 2]
   \<and> 1 < length (runs_in_tick ecs_tick2 3)
   \<and> updateCounter ecs_tick3 = 3
   \<and> runs_in_tick ecs_tick3 4 = [1]
   \<and> \<not> 2 < length (runs_in_tick ecs_tick3 4)"
proof -
  have s: "ecs_systems ecs_tick2 = [1, 2, 3]" "updateCounter ecs_tick2 = 2"
    "ecs_systems ecs_tick3 = [1, 2, 3]" "updateCounter ecs_tick3 = 3"
    by code_simp+
  have r: "runs_in_tick ecs_tick2 3 = [1, 2]" "runs_in_tick ecs_tick3 4 = [1]"
    by code_simp+
  have g: "\<not> gated_out ecs_tick2 0" "frequency (system_heap ecs_tick2 2) = 2"
    "gated_out ecs_tick3 1"
    by code_simp+
  from s r g frequency_gating [of ecs_tick2 3 1 0] frequency_gating [of ecs_tick3 4 2 1]
  show ?thesis by simp
qed

section \<open>Reconciliation: cleanDirtyEntities\<close>

lemma static_view_addEntity: "static_view (System_addEntity w s e) = static_view w"
  by (auto simp: static_view_def System_addEntity_def Entity_addSystem_def upd_system_def
      upd_entity_def emit_def strip_def fun_eq_iff)

lemma static_view_removeEntity: "static_view (System_removeEntity w s e) = static_view w"
  by (auto simp: static_view_def System_removeEntity_eq upd_system_def
      upd_entity_def emit_def strip_def fun_eq_iff)

lemma static_view_clean_step: "static_view (clean_step w e s) = static_view w"
  by (simp add: clean_step_def Let_def static_view_addEntity static_view_removeEntity)

lemma static_view_clean_fold:
  "static_view (fold (\<lambda>s w'. clean_step w' e s) ss w) = static_view w"
  by (rule fold_frame) (rule static_view_clean_step)

lemma static_view_clean_entity: "static_view (clean_entity w e) = static_view w"
  using static_view_clean_fold [of e "ecs_systems w" w]
  by (auto simp: clean_entity_def static_view_def upd_entity_def strip_def fun_eq_iff)
























text \<open>The outer loop, over a list of dirty entities.\<close>

lemma static_view_dirty_fold:
  "static_view (fold (\<lambda>e w'. clean_entity w' e) es w) = static_view w"
  by (rule fold_frame) (rule static_view_clean_entity)

lemma dirty_fold_systems:
  "ecs_systems (fold (\<lambda>e w'. clean_entity w' e) es w) = ecs_systems w"
  using static_view_dirty_fold [of es w] by (simp add: static_view_def)















end
